theory Spec2Isabelle
  imports Main "HOL-Library.Multiset"
begin

section \<open>streamprint: a shallow embedding of streamprint.h\<close>

subsection \<open>The sink: the template parameter T\<close>

text \<open>
  Every function of the header is a template over the stream type T and uses it only
  through operator<<: with a value, with a char pointer, and with the manipulators of
  iomanip. The stream is therefore a type variable \<open>'s\<close>, the values a type variable
  \<open>'v\<close> (a sum type for a heterogeneous argument pack), and the operations of the stream
  are passed as a record. Each field is one use of operator<< in the header.
\<close>

record ('s, 'v) sink_ops =
  shift_val :: "'v \<Rightarrow> 's \<Rightarrow> 's"             \<comment> \<open>out << value\<close>
  shift_cstr :: "string \<Rightarrow> 's \<Rightarrow> 's"        \<comment> \<open>out << f, f a char pointer\<close>
  shift_setw :: "int \<Rightarrow> 's \<Rightarrow> 's"           \<comment> \<open>out << std::setw(n)\<close>
  shift_setprecision :: "int \<Rightarrow> 's \<Rightarrow> 's"   \<comment> \<open>out << std::setprecision(n)\<close>
  shift_fixed :: "'s \<Rightarrow> 's"                  \<comment> \<open>out << std::fixed\<close>
  shift_scientific :: "'s \<Rightarrow> 's"             \<comment> \<open>out << std::scientific\<close>
  shift_hexfloat :: "'s \<Rightarrow> 's"               \<comment> \<open>out << std::hexfloat\<close>
  shift_defaultfloat :: "'s \<Rightarrow> 's"           \<comment> \<open>out << std::defaultfloat\<close>
  shift_setfill :: "char \<Rightarrow> 's \<Rightarrow> 's"       \<comment> \<open>out << std::setfill(c)\<close>
  shift_left :: "'s \<Rightarrow> 's"                   \<comment> \<open>out << std::left\<close>
  shift_right :: "'s \<Rightarrow> 's"                  \<comment> \<open>out << std::right\<close>

subsection \<open>print\_h and print\<close>

text \<open>
  The three overloads of print\_h are selected by the size of the argument pack: more than
  one argument, exactly one, none. The first writes the head and recurses on the tail.
\<close>

fun print_h :: "('s, 'v) sink_ops \<Rightarrow> 's \<Rightarrow> 'v list \<Rightarrow> 's" where
  "print_h ops out (a # b # args) = print_h ops (shift_val ops a out) (b # args)"
| "print_h ops out [a] = shift_val ops a out"
| "print_h ops out [] = out"

definition print :: "('s, 'v) sink_ops \<Rightarrow> 's \<Rightarrow> 'v list \<Rightarrow> 's" where
  "print ops out args = print_h ops out args"

subsection \<open>Memory: the private copy of the format string\<close>

text \<open>
  fprint copies the format string into a private char array (fcpy) and hands fprint\_h a
  pointer into it. The array is a \<open>char list\<close>, a pointer into it is an index, and a
  pointer that may be nullptr is a \<open>nat option\<close>. Every array fprint builds ends in the
  terminator, and the code overwrites only brace bytes, so no scan leaves the array; for
  totality the model reads a terminator beyond the end.
\<close>

abbreviation NUL :: char where
  "NUL \<equiv> CHR 0x00"

definition peek :: "char list \<Rightarrow> nat \<Rightarrow> char" where
  "peek buf i = (if i < length buf then buf ! i else NUL)"

text \<open>
  strchr of the C library on the bytes from the pointer on: the offset of the first byte
  equal to \<open>c\<close> before or at the terminator (the terminator itself when \<open>c\<close> is the
  terminator), nullptr when the terminator comes first.
\<close>

fun strchr_from :: "char list \<Rightarrow> char \<Rightarrow> nat option" where
  "strchr_from [] c = None"
| "strchr_from (x # xs) c =
     (if x = c then Some 0
      else if x = NUL then None
      else map_option Suc (strchr_from xs c))"

definition strchr :: "char list \<Rightarrow> nat \<Rightarrow> char \<Rightarrow> nat option" where
  "strchr buf p c = map_option (\<lambda>i. p + i) (strchr_from (drop p buf) c)"

text \<open>The C string a pointer denotes: the bytes from it up to the terminator.\<close>

definition c_str :: "char list \<Rightarrow> nat \<Rightarrow> string" where
  "c_str buf p = takeWhile (\<lambda>c. c \<noteq> NUL) (drop p buf)"

definition strlen :: "char list \<Rightarrow> nat" where
  "strlen f = length (c_str f 0)"

text \<open>
  atoi of the C library: skips white space, reads an optional sign and then decimal digits
  up to the first other character; no digits give 0. The C function returns the C type
  int (32 bits); the model returns an unbounded \<open>int\<close> and agrees with it on every
  number in that range. A number outside it is undefined behaviour in C (the library at
  hand wraps it around) and is not modelled, and no result below depends on such a number.
\<close>

definition isspace :: "char \<Rightarrow> bool" where
  "isspace c = (c \<in> set [CHR '' '', CHR 0x09, CHR 0x0A, CHR 0x0B, CHR 0x0C, CHR 0x0D])"

definition digit_val :: "char \<Rightarrow> nat option" where
  "digit_val = map_of
     [(CHR ''0'', 0), (CHR ''1'', 1), (CHR ''2'', 2), (CHR ''3'', 3), (CHR ''4'', 4),
      (CHR ''5'', 5), (CHR ''6'', 6), (CHR ''7'', 7), (CHR ''8'', 8), (CHR ''9'', 9)]"

fun atoi_digits :: "int \<Rightarrow> string \<Rightarrow> int" where
  "atoi_digits acc [] = acc"
| "atoi_digits acc (c # cs) =
     (case digit_val c of
        None \<Rightarrow> acc
      | Some d \<Rightarrow> atoi_digits (10 * acc + int d) cs)"

definition atoi :: "string \<Rightarrow> int" where
  "atoi s =
     (case dropWhile isspace s of
        [] \<Rightarrow> 0
      | c # cs \<Rightarrow>
          if c = CHR ''-'' then - atoi_digits 0 cs
          else if c = CHR ''+'' then atoi_digits 0 cs
          else atoi_digits 0 (c # cs))"

subsection \<open>setOpts: the option parser\<close>

text \<open>
  The lambda setopt of setOpts. \<open>optstr\<close> is the start of the placeholder body,
  \<open>opt\<close> the match strchr returned, \<open>f\<close> the action, which receives the pointer to the
  directive's argument.
\<close>

definition setopt :: "char list \<Rightarrow> nat \<Rightarrow> nat \<Rightarrow> (nat \<Rightarrow> 's \<Rightarrow> 's) \<Rightarrow> 's \<Rightarrow> 's" where
  "setopt buf optstr opt f out =
     (if opt > optstr \<and> peek buf (opt - 1) = CHR ''f'' then
        (case strchr buf (opt + 1) (peek buf opt) of
           Some opt' \<Rightarrow> f (opt' + 1) out
         | None \<Rightarrow> out)
      else f (opt + 1) out)"

text \<open>The switch of the m directive: no case matches any other character.\<close>

definition set_notation :: "('s, 'v) sink_ops \<Rightarrow> char list \<Rightarrow> nat \<Rightarrow> 's \<Rightarrow> 's" where
  "set_notation ops buf o' out =
     (let c = peek buf o' in
      if c = CHR ''x'' then shift_fixed ops out
      else if c = CHR ''s'' then shift_scientific ops out
      else if c = CHR ''h'' then shift_hexfloat ops out
      else if c = CHR ''d'' then shift_defaultfloat ops out
      else out)"

definition setOpts :: "('s, 'v) sink_ops \<Rightarrow> 's \<Rightarrow> char list \<Rightarrow> nat \<Rightarrow> 's" where
  "setOpts ops out buf optstr =
     (let out1 = (case strchr buf optstr (CHR ''w'') of
                    Some opt \<Rightarrow>
                      setopt buf optstr opt (\<lambda>o'. shift_setw ops (atoi (c_str buf o'))) out
                  | None \<Rightarrow> out);
          out2 = (case strchr buf optstr (CHR ''p'') of
                    Some opt \<Rightarrow>
                      setopt buf optstr opt
                        (\<lambda>o'. shift_setprecision ops (atoi (c_str buf o'))) out1
                  | None \<Rightarrow> out1);
          out3 = (case strchr buf optstr (CHR ''m'') of
                    Some opt \<Rightarrow> setopt buf optstr opt (set_notation ops buf) out2
                  | None \<Rightarrow> out2);
          out4 = (case strchr buf optstr (CHR ''f'') of
                    Some opt \<Rightarrow> shift_setfill ops (peek buf (opt + 1)) out3
                  | None \<Rightarrow> out3);
          out5 = (case strchr buf optstr (CHR ''L'') of
                    Some opt \<Rightarrow> shift_left ops out4
                  | None \<Rightarrow> out4);
          out6 = (case strchr buf optstr (CHR ''R'') of
                    Some opt \<Rightarrow> shift_right ops out5
                  | None \<Rightarrow> out5)
      in out6)"

subsection \<open>checkSetOpts: one scan step\<close>

text \<open>
  The state is the sink and the array; the result adds the returned pointer. Both braces
  are searched from \<open>f\<close> before either is overwritten, the text up to the first
  terminator is written, the body after the opening brace is parsed, and at the end the
  two brace bytes are set to char(1).
\<close>

definition checkSetOpts ::
  "('s, 'v) sink_ops \<Rightarrow> 's \<Rightarrow> char list \<Rightarrow> nat option \<Rightarrow> 's \<times> char list \<times> nat option" where
  "checkSetOpts ops out buf f =
     (case f of
        None \<Rightarrow> (out, buf, f)
      | Some p \<Rightarrow>
          let b1 = strchr buf p (CHR ''{'');
              b2 = strchr buf p (CHR ''}'');
              buf1 = (case b1 of Some i \<Rightarrow> buf[i := NUL] | None \<Rightarrow> buf);
              buf2 = (case b2 of Some i \<Rightarrow> buf1[i := NUL] | None \<Rightarrow> buf1);
              out1 = shift_cstr ops (c_str buf2 p) out;
              out2 = (case b1 of Some i \<Rightarrow> setOpts ops out1 buf2 (i + 1) | None \<Rightarrow> out1);
              f' = (case b2 of None \<Rightarrow> None | Some i \<Rightarrow> Some (i + 1));
              buf3 = (case b1 of Some i \<Rightarrow> buf2[i := CHR 0x01] | None \<Rightarrow> buf2);
              buf4 = (case b2 of Some i \<Rightarrow> buf3[i := CHR 0x01] | None \<Rightarrow> buf3)
          in (out2, buf4, f'))"

subsection \<open>fprint\_h and the overloads of fprint\<close>

text \<open>
  The overloads of fprint\_h by the size of the argument pack, in the order of the header:
  more than one argument, exactly one, none. The last discards the pointer that
  checkSetOpts returns.
\<close>

fun fprint_h ::
  "('s, 'v) sink_ops \<Rightarrow> 's \<Rightarrow> char list \<Rightarrow> nat option \<Rightarrow> 'v list \<Rightarrow> 's \<times> char list" where
  "fprint_h ops out buf f (a # b # args) =
     (case checkSetOpts ops out buf f of
        (out1, buf1, f1) \<Rightarrow> fprint_h ops (shift_val ops a out1) buf1 f1 (b # args))"
| "fprint_h ops out buf f [a] =
     (case checkSetOpts ops out buf f of
        (out1, buf1, f1) \<Rightarrow> fprint_h ops (shift_val ops a out1) buf1 f1 [])"
| "fprint_h ops out buf f [] =
     (case checkSetOpts ops out buf f of
        (out1, buf1, f1) \<Rightarrow> (out1, buf1))"

text \<open>
  fprint for a char array of known size N. The argument \<open>f\<close> is the whole array, so that
  N is its length; a string literal is its characters followed by the terminator. For
  N = 1 the array is not read and print\_h is called; for N > 1 all N bytes are copied
  and fprint\_h starts at the first.
\<close>

definition literal :: "string \<Rightarrow> char list" where
  "literal s = s @ [NUL]"

definition fprint :: "('s, 'v) sink_ops \<Rightarrow> 's \<Rightarrow> char list \<Rightarrow> 'v list \<Rightarrow> 's" where
  "fprint ops out f v =
     (if length f = 1 then print_h ops out v
      else (let fcpy = take (length f) f in fst (fprint_h ops out fcpy (Some 0) v)))"

text \<open>
  fprint for a char pointer. The argument \<open>f\<close> is the memory from the pointer on.
  slen is strlen(f) + 1, computed in size\_t; the sum cannot wrap, since a string of
  SIZE\_MAX characters and its terminator do not fit the address space, so it is a
  \<open>nat\<close>. The test of slen and the call of print after it are kept as written.
\<close>

definition fprint_ptr :: "('s, 'v) sink_ops \<Rightarrow> 's \<Rightarrow> char list \<Rightarrow> 'v list \<Rightarrow> 's" where
  "fprint_ptr ops out f v =
     (let slen = strlen f + 1 in
      if slen \<noteq> 0 then
        (let fcpy = take slen f in fst (fprint_h ops out fcpy (Some 0) v))
      else print ops out v)"

subsection \<open>A model of std::ostream\<close>

text \<open>
  The stream the header is written for. The model keeps the characters written so far and
  the formatting state the manipulators of setOpts change: field width, fill character,
  precision, float notation and adjustment. Values are integers (written in decimal),
  strings and characters; floating-point output is not modelled, so precision and float
  notation are state only. A formatted insertion pads its text with the fill character to
  the field width and then resets the width to 0; by the C++ standard this holds for the
  insertion of a char pointer as well, also when the string is empty. The other flags of
  the stream (base, showpos, ...) are at their defaults.
\<close>

datatype floatfield = Defaultfloat | Fixed | Scientific | Hexfloat

datatype adjustfield = AdjNone | AdjLeft | AdjRight | AdjInternal

record ostream =
  os_content :: string
  os_width :: int
  os_fill :: char
  os_precision :: int
  os_floatfield :: floatfield
  os_adjustfield :: adjustfield

datatype val = IntV int | StrV string | ChrV char

definition digit_char :: "nat \<Rightarrow> char" where
  "digit_char d = ''0123456789'' ! d"

fun dec :: "nat \<Rightarrow> string" where
  "dec n = (if n < 10 then [digit_char n] else dec (n div 10) @ [digit_char (n mod 10)])"

declare dec.simps [simp del]

text \<open>
  Padding: fill characters after the text for left adjustment, between sign and digits
  for internal adjustment, before the text otherwise.
\<close>

definition pad :: "ostream \<Rightarrow> string \<Rightarrow> string \<Rightarrow> string" where
  "pad os pfx body =
     (let fl = replicate (nat (os_width os - int (length pfx + length body))) (os_fill os) in
      case os_adjustfield os of
        AdjLeft \<Rightarrow> pfx @ body @ fl
      | AdjInternal \<Rightarrow> pfx @ fl @ body
      | _ \<Rightarrow> fl @ pfx @ body)"

definition repr :: "ostream \<Rightarrow> val \<Rightarrow> string" where
  "repr os v =
     (case v of
        IntV i \<Rightarrow> if i < 0 then pad os ''-'' (dec (nat (- i))) else pad os [] (dec (nat i))
      | StrV s \<Rightarrow> pad os [] s
      | ChrV c \<Rightarrow> pad os [] [c])"

definition ostream_put :: "val \<Rightarrow> ostream \<Rightarrow> ostream" where
  "ostream_put v os = os\<lparr>os_content := os_content os @ repr os v, os_width := 0\<rparr>"

definition ostream_ops :: "(ostream, val) sink_ops" where
  "ostream_ops =
     \<lparr>shift_val = ostream_put,
      shift_cstr = (\<lambda>s. ostream_put (StrV s)),
      shift_setw = (\<lambda>n os. os\<lparr>os_width := n\<rparr>),
      shift_setprecision = (\<lambda>n os. os\<lparr>os_precision := n\<rparr>),
      shift_fixed = (\<lambda>os. os\<lparr>os_floatfield := Fixed\<rparr>),
      shift_scientific = (\<lambda>os. os\<lparr>os_floatfield := Scientific\<rparr>),
      shift_hexfloat = (\<lambda>os. os\<lparr>os_floatfield := Hexfloat\<rparr>),
      shift_defaultfloat = (\<lambda>os. os\<lparr>os_floatfield := Defaultfloat\<rparr>),
      shift_setfill = (\<lambda>c os. os\<lparr>os_fill := c\<rparr>),
      shift_left = (\<lambda>os. os\<lparr>os_adjustfield := AdjLeft\<rparr>),
      shift_right = (\<lambda>os. os\<lparr>os_adjustfield := AdjRight\<rparr>)\<rparr>"

text \<open>A freshly constructed stream: nothing written, the formatting state of basic\_ios::init.\<close>

definition ostream_init :: ostream where
  "ostream_init =
     \<lparr>os_content = [], os_width = 0, os_fill = CHR '' '', os_precision = 6,
      os_floatfield = Defaultfloat, os_adjustfield = AdjNone\<rparr>"

subsection \<open>The option parser as the specification words it\<close>

text \<open>
  The definitions of this subsection are not taken from the header: they state, on the
  text of a placeholder body alone, what the specification says the option parser does,
  and are compared with setOpts below. \<open>first_occ\<close> is the position of the first
  occurrence of a letter. \<open>marker\<close> is the position of the marker the scan for w, p or
  m settles on: the first occurrence, unless the character before it is f, and then the
  next occurrence, if there is one. \<open>apply_directives\<close> applies at most one manipulator
  per letter, in the scan order w, p, m, f, L, R.
\<close>

definition first_occ :: "char \<Rightarrow> string \<Rightarrow> nat option" where
  "first_occ c s = (if c \<in> set s then Some (length (takeWhile (\<lambda>x. x \<noteq> c) s)) else None)"

definition marker :: "char \<Rightarrow> string \<Rightarrow> nat option" where
  "marker c body =
     (case first_occ c body of
        None \<Rightarrow> None
      | Some i \<Rightarrow>
          if 0 < i \<and> body ! (i - 1) = CHR ''f''
          then map_option (\<lambda>j. i + 1 + j) (first_occ c (drop (i + 1) body))
          else Some i)"

definition apply_notation :: "('s, 'v) sink_ops \<Rightarrow> char \<Rightarrow> 's \<Rightarrow> 's" where
  "apply_notation ops c out =
     (if c = CHR ''x'' then shift_fixed ops out
      else if c = CHR ''s'' then shift_scientific ops out
      else if c = CHR ''h'' then shift_hexfloat ops out
      else if c = CHR ''d'' then shift_defaultfloat ops out
      else out)"

definition apply_directives :: "('s, 'v) sink_ops \<Rightarrow> string \<Rightarrow> 's \<Rightarrow> 's" where
  "apply_directives ops body out =
     (let out1 = (case marker (CHR ''w'') body of
                    Some k \<Rightarrow> shift_setw ops (atoi (drop (k + 1) body)) out
                  | None \<Rightarrow> out);
          out2 = (case marker (CHR ''p'') body of
                    Some k \<Rightarrow> shift_setprecision ops (atoi (drop (k + 1) body)) out1
                  | None \<Rightarrow> out1);
          out3 = (case marker (CHR ''m'') body of
                    Some k \<Rightarrow> apply_notation ops (peek body (k + 1)) out2
                  | None \<Rightarrow> out2);
          out4 = (case first_occ (CHR ''f'') body of
                    Some i \<Rightarrow> shift_setfill ops (peek body (i + 1)) out3
                  | None \<Rightarrow> out3);
          out5 = (if CHR ''L'' \<in> set body then shift_left ops out4 else out4);
          out6 = (if CHR ''R'' \<in> set body then shift_right ops out5 else out5)
      in out6)"

subsection \<open>Placeholder bodies built from directives\<close>

text \<open>
  The directives of the header's comment, and the text each is written as: w and p with a
  decimal number, m with one of x, s, h, d, f with the fill character, L and R alone. A
  body is the concatenation of the texts of its directives.
\<close>

datatype directive =
  Width nat | Precision nat | Notation floatfield | Fill char | AlignLeft | AlignRight

fun letter :: "directive \<Rightarrow> char" where
  "letter (Width n) = CHR ''w''"
| "letter (Precision n) = CHR ''p''"
| "letter (Notation m) = CHR ''m''"
| "letter (Fill c) = CHR ''f''"
| "letter AlignLeft = CHR ''L''"
| "letter AlignRight = CHR ''R''"

fun notation_char :: "floatfield \<Rightarrow> char" where
  "notation_char Fixed = CHR ''x''"
| "notation_char Scientific = CHR ''s''"
| "notation_char Hexfloat = CHR ''h''"
| "notation_char Defaultfloat = CHR ''d''"

fun render :: "directive \<Rightarrow> string" where
  "render (Width n) = CHR ''w'' # dec n"
| "render (Precision n) = CHR ''p'' # dec n"
| "render (Notation m) = [CHR ''m'', notation_char m]"
| "render (Fill c) = [CHR ''f'', c]"
| "render AlignLeft = [CHR ''L'']"
| "render AlignRight = [CHR ''R'']"

definition body_of :: "directive list \<Rightarrow> string" where
  "body_of ds = concat (map render ds)"

text \<open>
  A fill character is plain when it is neither the letter f nor the terminator. A
  directive list is simple when no letter occurs twice and every fill character is plain.
\<close>

fun plain_fill :: "directive \<Rightarrow> bool" where
  "plain_fill (Fill c) = (c \<noteq> CHR ''f'' \<and> c \<noteq> NUL)"
| "plain_fill d = True"

definition simple_body :: "directive list \<Rightarrow> bool" where
  "simple_body ds = (distinct (map letter ds) \<and> list_all plain_fill ds)"

subsection \<open>Results about print\<close>

lemma print_h_foldl: "print_h ops out args = foldl (\<lambda>s v. shift_val ops v s) out args"
  by (induction ops out args rule: print_h.induct) simp_all

lemma repr_no_width: "os_width os = 0 \<Longrightarrow> repr os v = repr ostream_init v"
  by (cases v) (simp_all add: repr_def pad_def ostream_init_def split: adjustfield.splits)

lemma ostream_put_content:
  "os_width os = 0 \<Longrightarrow>
     os_content (foldl (\<lambda>s v. ostream_put v s) os vals)
       = os_content os @ concat (map (repr ostream_init) vals)"
proof (induction vals arbitrary: os)
  case Nil
  then show ?case by simp
next
  case (Cons v vals)
  have "os_width (ostream_put v os) = 0" by (simp add: ostream_put_def)
  then have "os_content (foldl (\<lambda>s v. ostream_put v s) (ostream_put v os) vals)
      = os_content (ostream_put v os) @ concat (map (repr ostream_init) vals)"
    by (rule Cons.IH)
  with Cons.prems show ?case
    by (simp add: ostream_put_def repr_no_width)
qed

text \<open>
  Claim C1. For every sink and every argument list, print applies the sink's own
  operator<< to each value, in argument order, and does nothing else to the sink: the
  result is the left fold of operator<< over the values, and with no values the sink is
  returned as it was. On a stream with no pending field width the characters appended are
  the representations of the values one after the other, with nothing between, before or
  after them.
\<close>

theorem print_writes_values_in_order:
  "print ops out args = foldl (\<lambda>s v. shift_val ops v s) out args
   \<and> print ops out [] = out
   \<and> (os_width os = 0 \<longrightarrow>
        os_content (print ostream_ops os vals)
          = os_content os @ concat (map (repr ostream_init) vals))"
proof -
  have "shift_val ostream_ops = ostream_put" by (simp add: ostream_ops_def)
  then show ?thesis
    by (simp add: print_def print_h_foldl ostream_put_content)
qed

theorem print_writes_values_in_order_witness:
  "os_width ostream_init = 0
   \<and> os_content (print ostream_ops ostream_init [IntV 12, StrV ''ab'', ChrV (CHR ''c''), IntV (- 3)])
       = ''12abc-3''"
proof -
  let ?vals = "[IntV 12, StrV ''ab'', ChrV (CHR ''c''), IntV (- 3)]"
  have w: "os_width ostream_init = 0" by (simp add: ostream_init_def)
  have c: "os_content ostream_init @ concat (map (repr ostream_init) ?vals) = ''12abc-3''"
    by code_simp
  have "os_width ostream_init = 0 \<longrightarrow>
        os_content (print ostream_ops ostream_init ?vals)
          = os_content ostream_init @ concat (map (repr ostream_init) ?vals)"
    using print_writes_values_in_order [of ostream_ops ostream_init ?vals ostream_init ?vals]
    by blast
  with w have "os_content (print ostream_ops ostream_init ?vals)
          = os_content ostream_init @ concat (map (repr ostream_init) ?vals)"
    by blast
  also note c
  finally show ?thesis using w by blast
qed

subsection \<open>Scanning a C string\<close>

lemma takeWhile_terminated:
  "NUL \<notin> set s \<Longrightarrow> takeWhile (\<lambda>c. c \<noteq> NUL) (s @ NUL # rest) = s"
  by (induction s) auto

lemma c_str_terminated: "NUL \<notin> set s \<Longrightarrow> c_str (s @ NUL # rest) 0 = s"
  by (simp add: c_str_def takeWhile_terminated)

lemma c_str_literal: "NUL \<notin> set s \<Longrightarrow> c_str (literal s) 0 = s"
  by (simp add: literal_def c_str_terminated)

lemma strlen_terminated: "NUL \<notin> set s \<Longrightarrow> strlen (s @ NUL # rest) = length s"
  by (simp add: strlen_def c_str_terminated)

lemma strchr_from_absent:
  "c \<noteq> NUL \<Longrightarrow> c \<notin> set (takeWhile (\<lambda>x. x \<noteq> NUL) xs) \<Longrightarrow> strchr_from xs c = None"
  by (induction xs) auto

lemma strchr_absent:
  "c \<noteq> NUL \<Longrightarrow> c \<notin> set (c_str buf p) \<Longrightarrow> strchr buf p c = None"
  by (simp add: strchr_def c_str_def strchr_from_absent)

subsection \<open>Format strings without braces\<close>

lemma checkSetOpts_nullptr: "checkSetOpts ops out buf None = (out, buf, None)"
  by (simp add: checkSetOpts_def)

lemma checkSetOpts_no_brace:
  assumes "CHR ''{'' \<notin> set (c_str buf p)" and "CHR ''}'' \<notin> set (c_str buf p)"
  shows "checkSetOpts ops out buf (Some p) = (shift_cstr ops (c_str buf p) out, buf, None)"
  using assms by (simp add: checkSetOpts_def strchr_absent)

text \<open>Once the pointer is nullptr, fprint\_h only writes the values that are left.\<close>

lemma fprint_h_nullptr: "fprint_h ops out buf None args = (print_h ops out args, buf)"
  by (induction ops out args rule: print_h.induct) (simp_all add: checkSetOpts_nullptr)

lemma fprint_h_no_brace:
  assumes "CHR ''{'' \<notin> set (c_str buf p)" and "CHR ''}'' \<notin> set (c_str buf p)"
  shows "fprint_h ops out buf (Some p) args
           = (print_h ops (shift_cstr ops (c_str buf p) out) args, buf)"
proof (cases args)
  case Nil
  then show ?thesis by (simp add: checkSetOpts_no_brace [OF assms])
next
  case (Cons a rest)
  then show ?thesis
    by (cases rest)
      (simp_all add: checkSetOpts_no_brace [OF assms] fprint_h_nullptr checkSetOpts_nullptr)
qed

text \<open>
  Claim C4, as stated, fails: a format string with no opening brace, hence with no
  placeholder, may hold a closing brace, and then the text is cut at that brace. For
  \<open>a}b\<close> and the value 1 the stream receives \<open>a1b\<close> and not \<open>a}b1\<close>.
\<close>

theorem fprint_stray_closing_brace:
  "CHR ''{'' \<notin> set ''a}b''
   \<and> os_content (fprint ostream_ops ostream_init (literal ''a}b'') [IntV 1]) = ''a1b''
   \<and> os_content (print ostream_ops (shift_cstr ostream_ops ''a}b'' ostream_init) [IntV 1])
       = ''a}b1''
   \<and> fprint ostream_ops ostream_init (literal ''a}b'') [IntV 1]
       \<noteq> print ostream_ops (shift_cstr ostream_ops ''a}b'' ostream_init) [IntV 1]"
  by code_simp

text \<open>
  Claim C4, amended. For every format string that holds neither an opening nor a closing
  brace, and every list of values, fprint writes the format string with the sink's
  operator<< for char pointers and then the values as print does, and nothing else. This
  holds for the array overloads (where the empty literal writes the values only) and for
  the pointer overload.
\<close>

theorem fprint_no_brace:
  assumes "CHR ''{'' \<notin> set s" and "CHR ''}'' \<notin> set s" and "NUL \<notin> set s"
  shows "fprint ops out (literal s) args
           = print ops (if s = [] then out else shift_cstr ops s out) args
         \<and> fprint_ptr ops out (s @ NUL # rest) args = print ops (shift_cstr ops s out) args"
proof -
  have lit: "c_str (literal s) 0 = s"
    using assms(3) by (rule c_str_literal)
  have a: "fprint ops out (literal s) args
           = print ops (if s = [] then out else shift_cstr ops s out) args"
  proof (cases "s = []")
    case True
    then show ?thesis by (simp add: fprint_def literal_def print_def)
  next
    case False
    then have "length (literal s) \<noteq> 1" by (cases s) (simp_all add: literal_def)
    with False assms lit show ?thesis
      by (simp add: fprint_def print_def fprint_h_no_brace)
  qed
  have cp: "take (strlen (s @ NUL # rest) + 1) (s @ NUL # rest) = literal s"
    using assms(3) by (simp add: strlen_terminated literal_def)
  have "fprint_ptr ops out (s @ NUL # rest) args
          = fst (fprint_h ops out (literal s) (Some 0) args)"
    unfolding fprint_ptr_def Let_def cp by simp
  with assms lit
  have b: "fprint_ptr ops out (s @ NUL # rest) args = print ops (shift_cstr ops s out) args"
    by (simp add: print_def fprint_h_no_brace)
  from a b show ?thesis ..
qed

theorem fprint_no_brace_witness:
  "fprint ostream_ops ostream_init (literal ''ab'') [IntV 1, IntV 2]
     = print ostream_ops (shift_cstr ostream_ops ''ab'' ostream_init) [IntV 1, IntV 2]
   \<and> os_content (fprint ostream_ops ostream_init (literal ''ab'') [IntV 1, IntV 2]) = ''ab12''"
proof -
  have "fprint ostream_ops ostream_init (literal ''ab'') [IntV 1, IntV 2]
     = print ostream_ops (shift_cstr ostream_ops ''ab'' ostream_init) [IntV 1, IntV 2]"
    using fprint_no_brace [where s = "''ab''" and ops = ostream_ops and out = ostream_init
        and args = "[IntV 1, IntV 2]"] by simp
  moreover have "os_content (print ostream_ops (shift_cstr ostream_ops ''ab'' ostream_init)
      [IntV 1, IntV 2]) = ''ab12''"
    by code_simp
  ultimately show ?thesis by simp
qed

subsection \<open>The empty format string\<close>

text \<open>
  Claim C2. The array overload for N = 1 calls print\_h and so agrees with print on every
  sink. The pointer overload does not: slen is strlen(f) + 1, never 0, so the call of
  print behind the test of slen is never reached, fprint\_h runs on a copy that holds the
  terminator only, and checkSetOpts writes the empty string to the sink before the first
  value. On a stream with a pending field width that insertion writes the padding and
  resets the width: with width 3 and the value 5 the pointer overload writes three blanks
  and then 5, where print writes two blanks and 5.
\<close>

theorem fprint_ptr_empty_format:
  "fprint ops out (literal []) args = print ops out args
   \<and> fprint_ptr ops out (NUL # rest) args = print ops (shift_cstr ops [] out) args
   \<and> os_content (fprint_ptr ostream_ops (ostream_init\<lparr>os_width := 3\<rparr>) (literal []) [IntV 5])
       = ''   5''
   \<and> os_content (print ostream_ops (ostream_init\<lparr>os_width := 3\<rparr>) [IntV 5]) = ''  5''
   \<and> fprint_ptr ostream_ops (ostream_init\<lparr>os_width := 3\<rparr>) (literal []) [IntV 5]
       \<noteq> print ostream_ops (ostream_init\<lparr>os_width := 3\<rparr>) [IntV 5]"
proof -
  have a: "fprint ops out (literal []) args = print ops out args"
    by (simp add: fprint_def literal_def print_def)
  have "strlen (NUL # rest) = 0"
    by (simp add: strlen_def c_str_def)
  then have "fprint_ptr ops out (NUL # rest) args = fst (fprint_h ops out [NUL] (Some 0) args)"
    by (simp add: fprint_ptr_def)
  moreover have "c_str [NUL] 0 = []"
    by (simp add: c_str_def)
  ultimately have b: "fprint_ptr ops out (NUL # rest) args
      = print ops (shift_cstr ops [] out) args"
    by (simp add: print_def fprint_h_no_brace)
  have c: "os_content (fprint_ptr ostream_ops (ostream_init\<lparr>os_width := 3\<rparr>) (literal [])
      [IntV 5]) = ''   5''"
    by code_simp
  have d: "os_content (print ostream_ops (ostream_init\<lparr>os_width := 3\<rparr>) [IntV 5]) = ''  5''"
    by code_simp
  have e: "fprint_ptr ostream_ops (ostream_init\<lparr>os_width := 3\<rparr>) (literal []) [IntV 5]
       \<noteq> print ostream_ops (ostream_init\<lparr>os_width := 3\<rparr>) [IntV 5]"
    by code_simp
  from a b c d e show ?thesis by blast
qed

subsection \<open>After the last value\<close>

text \<open>
  Claim C3. The overload of fprint\_h for the empty pack calls checkSetOpts once and drops
  the pointer it returns: the text up to the next brace is written and the directives of
  the next placeholder are applied, and whatever follows the closing brace of that
  placeholder is neither written nor parsed. For \<open>{}b{}c\<close> and the value 1 the stream
  receives \<open>1b\<close>, without the final \<open>c\<close>; for \<open>a{}b\<close> and no value it receives
  \<open>a\<close>; for \<open>{}b{}c{f*}\<close> and the value 1 the fill character stays the blank.
\<close>

theorem fprint_drops_text_after_next_placeholder:
  "os_content (fprint ostream_ops ostream_init (literal ''{}b{}c'') [IntV 1]) = ''1b''
   \<and> os_content (fprint ostream_ops ostream_init (literal ''a{}b'') []) = ''a''
   \<and> os_fill (fprint ostream_ops ostream_init (literal ''{}b{}c{f*}'') [IntV 1]) = CHR '' ''"
  by code_simp

subsection \<open>The scenario with fill and width\<close>

lemmas scan_defs =
  fprint_def literal_def checkSetOpts_def strchr_def setOpts_def setopt_def
  peek_def c_str_def atoi_def isspace_def digit_val_def set_notation_def

text \<open>
  Claim C7. For the format string \<open>{f*w6}\<close> and one value, on every sink, fprint writes
  the empty text before the placeholder, sets the field width to 6 and the fill character
  to the star, writes the value, and writes the empty rest. On a fresh stream and the
  value 5 the characters written are five stars and 5: the value padded with the star to
  width 6, right-adjusted as is the stream's default.
\<close>

theorem fprint_fill_width_example:
  "fprint ops out (literal ''{f*w6}'') [v]
     = shift_cstr ops [] (shift_val ops v
         (shift_setfill ops (CHR ''*'') (shift_setw ops 6 (shift_cstr ops [] out))))
   \<and> os_content (fprint ostream_ops ostream_init (literal ''{f*w6}'') [IntV 5]) = ''*****5''"
proof
  show "fprint ops out (literal ''{f*w6}'') [v]
     = shift_cstr ops [] (shift_val ops v
         (shift_setfill ops (CHR ''*'') (shift_setw ops 6 (shift_cstr ops [] out))))"
    by (simp add: scan_defs)
  show "os_content (fprint ostream_ops ostream_init (literal ''{f*w6}'') [IntV 5]) = ''*****5''"
    by code_simp
qed

subsection \<open>The parser on the text of a placeholder body\<close>

text \<open>
  In these lemmas the array is \<open>pre @ body @ NUL # post\<close>: the body of a placeholder
  starts at \<open>length pre\<close>, holds no terminator and is followed by one, as it is while
  checkSetOpts has the closing brace overwritten.
\<close>

lemma first_occ_Nil: "first_occ c [] = None"
  by (simp add: first_occ_def)

lemma first_occ_Cons:
  "first_occ c (x # xs) = (if x = c then Some 0 else map_option Suc (first_occ c xs))"
  by (simp add: first_occ_def)

lemma first_occ_SomeD:
  "first_occ c s = Some i \<Longrightarrow> i < length s \<and> s ! i = c"
proof (induction s arbitrary: i)
  case Nil
  then show ?case by (simp add: first_occ_Nil)
next
  case (Cons x xs)
  then show ?case by (auto simp: first_occ_Cons split: if_splits)
qed

lemma first_occ_append:
  "c \<notin> set a \<Longrightarrow> first_occ c (a @ c # b) = Some (length a)"
  by (induction a) (auto simp: first_occ_Cons)

lemma strchr_from_body:
  "c \<noteq> NUL \<Longrightarrow> NUL \<notin> set body \<Longrightarrow> strchr_from (body @ NUL # post) c = first_occ c body"
  by (induction body) (auto simp: first_occ_Nil first_occ_Cons)

lemma strchr_body:
  assumes "c \<noteq> NUL" and "NUL \<notin> set body" and "i \<le> length body"
  shows "strchr (pre @ body @ NUL # post) (length pre + i) c
           = map_option (\<lambda>j. length pre + i + j) (first_occ c (drop i body))"
proof -
  have "NUL \<notin> set (drop i body)"
    using assms(2) by (meson in_set_dropD)
  then show ?thesis
    using assms(1,3) by (simp add: strchr_def strchr_from_body)
qed

lemma peek_in_body:
  "i < length body \<Longrightarrow> peek (pre @ body @ rest) (length pre + i) = body ! i"
  by (simp add: peek_def nth_append)

lemma peek_body:
  assumes "i \<le> length body"
  shows "peek (pre @ body @ NUL # post) (length pre + i) = peek body i"
  using assms by (auto simp: peek_def nth_append)

lemma c_str_body:
  assumes "NUL \<notin> set body" and "i \<le> length body"
  shows "c_str (pre @ body @ NUL # post) (length pre + i) = drop i body"
proof -
  have "NUL \<notin> set (drop i body)"
    using assms(1) by (meson in_set_dropD)
  then show ?thesis
    using assms(2) by (simp add: c_str_def takeWhile_terminated)
qed

text \<open>The lambda setopt settles on the position that \<open>marker\<close> describes.\<close>

lemma setopt_marker:
  assumes "c \<noteq> NUL" and "NUL \<notin> set body"
  shows "(case strchr (pre @ body @ NUL # post) (length pre) c of
            Some opt \<Rightarrow> setopt (pre @ body @ NUL # post) (length pre) opt f out
          | None \<Rightarrow> out)
         = (case marker c body of
              Some k \<Rightarrow> f (length pre + k + 1) out
            | None \<Rightarrow> out)"
proof (cases "first_occ c body")
  case None
  moreover have "strchr (pre @ body @ NUL # post) (length pre) c = None"
    using strchr_body [OF assms, of 0 pre post] None by simp
  ultimately show ?thesis by (simp add: marker_def)
next
  case (Some i)
  let ?buf = "pre @ body @ NUL # post"
  from Some have i: "i < length body" and bi: "body ! i = c"
    by (auto dest: first_occ_SomeD)
  have s0: "strchr ?buf (length pre) c = Some (length pre + i)"
    using strchr_body [OF assms, of 0 pre post] Some by simp
  have pk: "peek ?buf (length pre + i) = c"
    using peek_in_body [OF i, of pre "NUL # post"] bi by simp
  have pk1: "0 < i \<Longrightarrow> peek ?buf (length pre + i - 1) = body ! (i - 1)"
  proof -
    assume "0 < i"
    then have eq: "length pre + i - 1 = length pre + (i - 1)" by simp
    from i have "i - 1 < length body" by simp
    then have "peek ?buf (length pre + (i - 1)) = body ! (i - 1)"
      by (rule peek_in_body)
    with eq show ?thesis by simp
  qed
  have s1: "strchr ?buf (length pre + i + 1) c
      = map_option (\<lambda>j. length pre + (i + 1) + j) (first_occ c (drop (i + 1) body))"
    using strchr_body [OF assms, of "i + 1" pre post] i by (simp add: add.assoc)
  show ?thesis
  proof (cases "0 < i \<and> body ! (i - 1) = CHR ''f''")
    case True
    then show ?thesis
      using s0 s1 pk pk1 Some
      by (cases "first_occ c (drop (i + 1) body)") (simp_all add: setopt_def marker_def add.assoc)
  next
    case False
    then show ?thesis
      using s0 pk1 Some by (auto simp: setopt_def marker_def)
  qed
qed


lemma set_notation_eq: "set_notation ops buf p = apply_notation ops (peek buf p)"
  by (rule ext) (simp add: set_notation_def apply_notation_def)

lemma marker_bound: "marker c body = Some k \<Longrightarrow> k < length body"
  by (auto simp: marker_def split: option.splits if_splits dest!: first_occ_SomeD)

lemma setOpts_body:
  assumes nul: "NUL \<notin> set body"
  shows "setOpts ops out (pre @ body @ NUL # post) (length pre) = apply_directives ops body out"
proof -
  let ?buf = "pre @ body @ NUL # post"
  have arg: "c_str ?buf (length pre + k + 1) = drop (k + 1) body"
    if "marker c body = Some k" for c k
    using c_str_body [OF nul, of "k + 1" pre post] marker_bound [OF that] by (simp add: add.assoc)
  have pk: "peek ?buf (length pre + k + 1) = peek body (k + 1)"
    if "k < length body" for k
    using peek_body [of "k + 1" body pre post] that by (simp add: add.assoc)
  have w: "(case strchr ?buf (length pre) (CHR ''w'') of
              Some opt \<Rightarrow> setopt ?buf (length pre) opt
                 (\<lambda>o'. shift_setw ops (atoi (c_str ?buf o'))) s
            | None \<Rightarrow> s)
         = (case marker (CHR ''w'') body of
              Some k \<Rightarrow> shift_setw ops (atoi (drop (k + 1) body)) s
            | None \<Rightarrow> s)" for s
    using arg [of "CHR ''w''"] by (simp add: setopt_marker [OF _ nul] split: option.splits)
  have p: "(case strchr ?buf (length pre) (CHR ''p'') of
              Some opt \<Rightarrow> setopt ?buf (length pre) opt
                 (\<lambda>o'. shift_setprecision ops (atoi (c_str ?buf o'))) s
            | None \<Rightarrow> s)
         = (case marker (CHR ''p'') body of
              Some k \<Rightarrow> shift_setprecision ops (atoi (drop (k + 1) body)) s
            | None \<Rightarrow> s)" for s
    using arg [of "CHR ''p''"] by (simp add: setopt_marker [OF _ nul] split: option.splits)
  have m: "(case strchr ?buf (length pre) (CHR ''m'') of
              Some opt \<Rightarrow> setopt ?buf (length pre) opt (set_notation ops ?buf) s
            | None \<Rightarrow> s)
         = (case marker (CHR ''m'') body of
              Some k \<Rightarrow> apply_notation ops (peek body (k + 1)) s
            | None \<Rightarrow> s)" for s
    using pk marker_bound [of "CHR ''m''" body]
    by (simp add: setopt_marker [OF _ nul] set_notation_eq split: option.splits)
  have s0: "strchr ?buf (length pre) c = map_option (\<lambda>j. length pre + j) (first_occ c body)"
    if "c \<noteq> NUL" for c
    using strchr_body [OF that nul, of 0 pre post] by simp
  have f: "(case strchr ?buf (length pre) (CHR ''f'') of
              Some opt \<Rightarrow> shift_setfill ops (peek ?buf (opt + 1)) s
            | None \<Rightarrow> s)
         = (case first_occ (CHR ''f'') body of
              Some i \<Rightarrow> shift_setfill ops (peek body (i + 1)) s
            | None \<Rightarrow> s)" for s
    using pk by (auto simp: s0 split: option.splits dest!: first_occ_SomeD)
  have l: "(case strchr ?buf (length pre) (CHR ''L'') of
              Some opt \<Rightarrow> shift_left ops s
            | None \<Rightarrow> s)
         = (if CHR ''L'' \<in> set body then shift_left ops s else s)" for s
    by (cases "first_occ (CHR ''L'') body") (auto simp: s0 first_occ_def split: if_splits)
  have r: "(case strchr ?buf (length pre) (CHR ''R'') of
              Some opt \<Rightarrow> shift_right ops s
            | None \<Rightarrow> s)
         = (if CHR ''R'' \<in> set body then shift_right ops s else s)" for s
    by (cases "first_occ (CHR ''R'') body") (auto simp: s0 first_occ_def split: if_splits)
  show ?thesis
    unfolding setOpts_def apply_directives_def Let_def w p m f l r ..
qed

text \<open>What the parser leaves of width, precision and float notation in the stream model.\<close>

lemma os_width_apply_directives:
  "os_width (apply_directives ostream_ops body os)
     = (case marker (CHR ''w'') body of
          Some k \<Rightarrow> atoi (drop (k + 1) body)
        | None \<Rightarrow> os_width os)"
  by (simp add: apply_directives_def ostream_ops_def apply_notation_def Let_def
      split: option.splits)

lemma os_precision_apply_directives:
  "os_precision (apply_directives ostream_ops body os)
     = (case marker (CHR ''p'') body of
          Some k \<Rightarrow> atoi (drop (k + 1) body)
        | None \<Rightarrow> os_precision os)"
  by (simp add: apply_directives_def ostream_ops_def apply_notation_def Let_def
      split: option.splits)

lemma os_floatfield_apply_directives:
  "os_floatfield (apply_directives ostream_ops body os)
     = (case marker (CHR ''m'') body of
          Some k \<Rightarrow>
            (let c = peek body (k + 1) in
             if c = CHR ''x'' then Fixed
             else if c = CHR ''s'' then Scientific
             else if c = CHR ''h'' then Hexfloat
             else if c = CHR ''d'' then Defaultfloat
             else os_floatfield os)
        | None \<Rightarrow> os_floatfield os)"
  by (simp add: apply_directives_def ostream_ops_def apply_notation_def Let_def
      split: option.splits)

text \<open>
  Claim C6. When setOpts scans a body for w, p or m, the directive it applies is the one
  at the marker \<open>marker\<close> describes: the first occurrence of the letter when it is at
  the start of the body or the character before it is not f; when the character before
  it is f, the next occurrence of the same letter, if there is one. The width and the
  precision setOpts leaves in the stream are the number read behind that marker, the float
  notation the one named by the character behind it; when there is no such occurrence the
  directive is not applied and the stream keeps what it had. The last part states the
  same of the lambda setopt for every action.
\<close>

theorem setOpts_rescan:
  assumes "NUL \<notin> set body"
  shows "os_width (setOpts ostream_ops os (pre @ body @ NUL # post) (length pre))
           = (case marker (CHR ''w'') body of
                Some k \<Rightarrow> atoi (drop (k + 1) body)
              | None \<Rightarrow> os_width os)
         \<and> os_precision (setOpts ostream_ops os (pre @ body @ NUL # post) (length pre))
           = (case marker (CHR ''p'') body of
                Some k \<Rightarrow> atoi (drop (k + 1) body)
              | None \<Rightarrow> os_precision os)
         \<and> os_floatfield (setOpts ostream_ops os (pre @ body @ NUL # post) (length pre))
           = (case marker (CHR ''m'') body of
                Some k \<Rightarrow>
                  (let c = peek body (k + 1) in
                   if c = CHR ''x'' then Fixed
                   else if c = CHR ''s'' then Scientific
                   else if c = CHR ''h'' then Hexfloat
                   else if c = CHR ''d'' then Defaultfloat
                   else os_floatfield os)
              | None \<Rightarrow> os_floatfield os)
         \<and> (c \<in> {CHR ''w'', CHR ''p'', CHR ''m''} \<longrightarrow>
              (case strchr (pre @ body @ NUL # post) (length pre) c of
                 Some opt \<Rightarrow> setopt (pre @ body @ NUL # post) (length pre) opt f out
               | None \<Rightarrow> out)
              = (case marker c body of
                   Some k \<Rightarrow> f (length pre + k + 1) out
                 | None \<Rightarrow> out))"
proof -
  have eq: "setOpts ostream_ops os (pre @ body @ NUL # post) (length pre)
      = apply_directives ostream_ops body os"
    using assms by (rule setOpts_body)
  have lam: "(case strchr (pre @ body @ NUL # post) (length pre) c of
                 Some opt \<Rightarrow> setopt (pre @ body @ NUL # post) (length pre) opt f out
               | None \<Rightarrow> out)
              = (case marker c body of
                   Some k \<Rightarrow> f (length pre + k + 1) out
                 | None \<Rightarrow> out)"
    if "c \<in> {CHR ''w'', CHR ''p'', CHR ''m''}"
  proof -
    from that have "c \<noteq> NUL" by auto
    then show ?thesis using assms by (rule setopt_marker)
  qed
  show ?thesis
    unfolding eq os_width_apply_directives os_precision_apply_directives
      os_floatfield_apply_directives
    using lam by blast
qed

theorem setOpts_rescan_witness:
  "NUL \<notin> set ''fww5fp''
   \<and> marker (CHR ''w'') ''fww5fp'' = Some 2
   \<and> CHR ''p'' \<in> set ''fww5fp'' \<and> marker (CHR ''p'') ''fww5fp'' = None
   \<and> os_width (setOpts ostream_ops ostream_init
         ([NUL] @ ''fww5fp'' @ NUL # []) (length [NUL])) = 5
   \<and> os_precision (setOpts ostream_ops ostream_init
         ([NUL] @ ''fww5fp'' @ NUL # []) (length [NUL])) = os_precision ostream_init"
proof -
  let ?res = "setOpts ostream_ops ostream_init ([NUL] @ ''fww5fp'' @ NUL # []) (length [NUL])"
  have n: "NUL \<notin> set ''fww5fp''" by simp
  have mw: "marker (CHR ''w'') ''fww5fp'' = Some 2"
    by (simp add: marker_def first_occ_def)
  have mp: "marker (CHR ''p'') ''fww5fp'' = None"
    by (simp add: marker_def first_occ_def)
  have arg: "atoi (drop (2 + 1) ''fww5fp'') = 5"
    by (simp add: atoi_def isspace_def digit_val_def)
  note t = setOpts_rescan [OF n, of ostream_init "[NUL]" "[]"]
  from t have "os_width ?res
      = (case marker (CHR ''w'') ''fww5fp'' of
           Some k \<Rightarrow> atoi (drop (k + 1) ''fww5fp'')
         | None \<Rightarrow> os_width ostream_init)"
    by (rule conjunct1)
  then have w: "os_width ?res = 5"
    unfolding mw option.case arg .
  from t have "os_precision ?res
      = (case marker (CHR ''p'') ''fww5fp'' of
           Some k \<Rightarrow> atoi (drop (k + 1) ''fww5fp'')
         | None \<Rightarrow> os_precision ostream_init)"
    by (rule conjunct2 [THEN conjunct1])
  then have p: "os_precision ?res = os_precision ostream_init"
    unfolding mp option.case .
  have pin: "CHR ''p'' \<in> set ''fww5fp''" by simp
  from n mw pin mp w p show ?thesis by (intro conjI)
qed

text \<open>
  Claim C9. For every body, setOpts applies what \<open>apply_directives\<close> applies: for each
  of the six letters at most one manipulator, found from the first occurrence of the
  letter alone (for w, p and m through \<open>marker\<close>, which moves to the second occurrence
  after an f). The first occurrence is the one with no occurrence before it, whatever
  follows, so a later occurrence of the same letter plays no part. The body \<open>w5w7\<close>
  sets the field width to 5.
\<close>

theorem setOpts_first_occurrence:
  assumes "NUL \<notin> set body"
  shows "setOpts ops out (pre @ body @ NUL # post) (length pre) = apply_directives ops body out
         \<and> (c \<notin> set a \<longrightarrow> first_occ c (a @ c # b) = Some (length a))
         \<and> os_width (setOpts ostream_ops ostream_init (literal ''w5w7'') 0) = 5"
proof -
  have "os_width (setOpts ostream_ops ostream_init (literal ''w5w7'') 0) = 5"
    by code_simp
  then show ?thesis
    using assms by (simp add: setOpts_body first_occ_append)
qed

theorem setOpts_first_occurrence_witness:
  "NUL \<notin> set ''Lw5w7''
   \<and> setOpts ostream_ops ostream_init ([NUL] @ ''Lw5w7'' @ NUL # []) (length [NUL])
       = apply_directives ostream_ops ''Lw5w7'' ostream_init
   \<and> CHR ''w'' \<notin> set ''L''
   \<and> first_occ (CHR ''w'') (''L'' @ CHR ''w'' # ''5w7'') = Some (length ''L'')
   \<and> os_width (apply_directives ostream_ops ''Lw5w7'' ostream_init) = 5"
proof -
  have n: "NUL \<notin> set ''Lw5w7''" by simp
  have e: "CHR ''w'' \<notin> set ''L''" by simp
  have w: "os_width (apply_directives ostream_ops ''Lw5w7'' ostream_init) = 5"
    by code_simp
  note t = setOpts_first_occurrence [OF n, of ostream_ops ostream_init "[NUL]" "[]"
      "CHR ''w''" "''L''" "''5w7''"]
  from t have t1: "setOpts ostream_ops ostream_init ([NUL] @ ''Lw5w7'' @ NUL # []) (length [NUL])
       = apply_directives ostream_ops ''Lw5w7'' ostream_init"
    by (rule conjunct1)
  from t have "CHR ''w'' \<notin> set ''L''
      \<longrightarrow> first_occ (CHR ''w'') (''L'' @ CHR ''w'' # ''5w7'') = Some (length ''L'')"
    by (rule conjunct2 [THEN conjunct1])
  with e have t2: "first_occ (CHR ''w'') (''L'' @ CHR ''w'' # ''5w7'') = Some (length ''L'')"
    by (rule rev_mp)
  from n t1 e t2 w show ?thesis by (intro conjI)
qed

subsection \<open>A scan step at a placeholder\<close>

text \<open>
  The array is \<open>old @ pre @ {body} @ post\<close> and the scan starts after \<open>old\<close>: the text
  \<open>pre\<close> before the opening brace is written, the body is parsed, the pointer moves
  behind the closing brace, and both brace bytes are left as char(1).
\<close>

lemma strchr_from_found:
  "c \<notin> set a \<Longrightarrow> NUL \<notin> set a \<Longrightarrow> strchr_from (a @ c # rest) c = Some (length a)"
  by (induction a) auto

lemma strchr_found:
  "c \<notin> set a \<Longrightarrow> NUL \<notin> set a
    \<Longrightarrow> strchr (old @ a @ c # rest) (length old) c = Some (length old + length a)"
  by (simp add: strchr_def strchr_from_found)

lemma update_second:
  "(a @ x # b @ y # r)[length a + length b + 1 := z] = a @ x # b @ z # r"
  by (simp add: list_update_append)

lemma checkSetOpts_placeholder:
  assumes "CHR ''{'' \<notin> set pre" and "CHR ''}'' \<notin> set pre" and "NUL \<notin> set pre"
    and "CHR ''}'' \<notin> set body" and "NUL \<notin> set body"
  shows "checkSetOpts ops out (old @ pre @ CHR ''{'' # body @ CHR ''}'' # post) (Some (length old))
         = (apply_directives ops body (shift_cstr ops pre out),
            old @ pre @ CHR 0x01 # body @ CHR 0x01 # post,
            Some (length old + length pre + length body + 2))"
proof -
  let ?buf = "old @ pre @ CHR ''{'' # body @ CHR ''}'' # post"
  let ?i1 = "length old + length pre"
  let ?i2 = "Suc (length old + length pre + length body)"
  have b1: "strchr ?buf (length old) (CHR ''{'') = Some ?i1"
    using assms(1,3) by (simp add: strchr_found)
  have "strchr (old @ (pre @ CHR ''{'' # body) @ CHR ''}'' # post) (length old) (CHR ''}'')
        = Some (length old + length (pre @ CHR ''{'' # body))"
    using assms(2-5) by (intro strchr_found) auto
  then have b2: "strchr ?buf (length old) (CHR ''}'') = Some ?i2"
    by simp
  have u1: "?buf[?i1 := z] = old @ pre @ z # body @ CHR ''}'' # post" for z
    using list_update_length [of "old @ pre" "CHR ''{''" "body @ CHR ''}'' # post" z] by simp
  have u2: "(old @ pre @ x # body @ y # post)[?i2 := z] = old @ pre @ x # body @ z # post"
    for x y z
    using update_second [of "old @ pre" x body y post z] by (simp add: add.assoc)
  have u1': "(old @ pre @ x # body @ y # post)[?i1 := z] = old @ pre @ z # body @ y # post"
    for x y z
    using list_update_length [of "old @ pre" x "body @ y # post" z] by simp
  let ?buf2 = "old @ pre @ NUL # body @ NUL # post"
  have written: "c_str ?buf2 (length old) = pre"
    using c_str_body [OF assms(3), of 0 "old" "body @ NUL # post"] by simp
  have "setOpts ops s ((old @ pre @ [NUL]) @ body @ NUL # post) (length (old @ pre @ [NUL]))
        = apply_directives ops body s" for s
    using assms(5) by (rule setOpts_body)
  then have opts: "setOpts ops s ?buf2 (Suc ?i1) = apply_directives ops body s" for s
    by simp
  show ?thesis
    unfolding checkSetOpts_def
    by (simp add: b1 b2 u1 u2 u1' written opts Let_def)
qed

lemma os_fill_apply_directives:
  "os_fill (apply_directives ostream_ops body os)
     = (case first_occ (CHR ''f'') body of
          Some i \<Rightarrow> peek body (i + 1)
        | None \<Rightarrow> os_fill os)"
  by (simp add: apply_directives_def ostream_ops_def apply_notation_def Let_def
      split: option.splits)

text \<open>
  Claim C10, as stated, fails when the closing f is not the first f of the body: setOpts
  takes the fill character from behind the first f. In the body \<open>f*f\<close> the last
  character is f and the fill character set is the star.
\<close>

theorem fill_after_earlier_f:
  "last ''f*f'' = CHR ''f''
   \<and> os_fill (fst (checkSetOpts ostream_ops ostream_init (literal ''{f*f}'') (Some 0))) = CHR ''*''
   \<and> os_fill (fst (checkSetOpts ostream_ops ostream_init (literal ''{f*f}'') (Some 0))) \<noteq> NUL"
  by code_simp

text \<open>
  Claim C10, amended. When the first f of a placeholder body is its last character, the
  fill directive is still applied, and the fill character it sets is the terminator that
  checkSetOpts has put in the place of the closing brace. Here the placeholder is the one
  a scan step finds: the text before its opening brace holds no brace. The placeholder
  \<open>{f}\<close> is the instance with nothing around and nothing before the f.
\<close>

theorem fill_without_argument:
  assumes "CHR ''{'' \<notin> set pre" and "CHR ''}'' \<notin> set pre" and "NUL \<notin> set pre"
    and "CHR ''}'' \<notin> set s" and "NUL \<notin> set s" and "CHR ''f'' \<notin> set s"
  shows "os_fill (fst (checkSetOpts ostream_ops os
            (old @ pre @ CHR ''{'' # (s @ ''f'') @ CHR ''}'' # post) (Some (length old)))) = NUL"
proof -
  have "first_occ (CHR ''f'') (s @ ''f'') = Some (length s)"
    using assms(6) by (simp add: first_occ_append)
  moreover have "peek (s @ ''f'') (length s + 1) = NUL"
    by (simp add: peek_def)
  ultimately have fill: "os_fill (apply_directives ostream_ops (s @ ''f'') t) = NUL" for t
    by (simp add: os_fill_apply_directives)
  have "CHR ''}'' \<notin> set (s @ ''f'')" and "NUL \<notin> set (s @ ''f'')"
    using assms(4,5) by simp_all
  with assms(1-3)
  have "checkSetOpts ostream_ops os
            (old @ pre @ CHR ''{'' # (s @ ''f'') @ CHR ''}'' # post) (Some (length old))
        = (apply_directives ostream_ops (s @ ''f'') (shift_cstr ostream_ops pre os),
            old @ pre @ CHR 0x01 # (s @ ''f'') @ CHR 0x01 # post,
            Some (length old + length pre + length (s @ ''f'') + 2))"
    by (rule checkSetOpts_placeholder)
  then show ?thesis
    by (simp only: fst_conv fill)
qed

theorem fill_without_argument_witness:
  "os_fill (fst (checkSetOpts ostream_ops ostream_init (literal ''{f}'') (Some 0))) = NUL"
  using fill_without_argument [of "[]" "[]" ostream_init "[]" "[NUL]"]
  by (simp add: literal_def)

subsection \<open>What a scan step leaves in the array\<close>

lemma nth_marked:
  "i < length buf \<Longrightarrow>
     buf[a := x, b := y, a := z, b := z] ! i = (if i = a \<or> i = b then z else buf ! i)"
  by (cases "i = a"; cases "i = b") (simp_all add: nth_list_update)

text \<open>
  Claim C8, as stated, fails: the brace bytes are not given their characters back. After
  the step on \<open>a{w5}b\<close> both hold char(1).
\<close>

theorem checkSetOpts_leaves_char1:
  "fst (snd (checkSetOpts ostream_ops ostream_init (literal ''a{w5}b'') (Some 0)))
     = [CHR ''a'', CHR 0x01, CHR ''w'', CHR ''5'', CHR 0x01, CHR ''b'', NUL]
   \<and> fst (snd (checkSetOpts ostream_ops ostream_init (literal ''a{w5}b'') (Some 0))) ! 1
       \<noteq> literal ''a{w5}b'' ! 1"
  by code_simp

text \<open>
  Claim C8, amended. A scan step keeps the length of the array and every byte of it but
  the two bytes at which strchr found the first opening and the first closing brace from
  the scan position; those two, overwritten with the terminator while the step writes and
  parses, hold char(1) afterwards, not the braces. A step from nullptr leaves the array as
  it is.
\<close>

theorem checkSetOpts_frame:
  "length (fst (snd (checkSetOpts ops out buf (Some p)))) = length buf
   \<and> (\<forall>i < length buf.
        fst (snd (checkSetOpts ops out buf (Some p))) ! i
          = (if strchr buf p (CHR ''{'') = Some i \<or> strchr buf p (CHR ''}'') = Some i
             then CHR 0x01 else buf ! i))
   \<and> fst (snd (checkSetOpts ops out buf None)) = buf"
proof (cases "strchr buf p (CHR ''{'')"; cases "strchr buf p (CHR ''}'')")
qed (auto simp: checkSetOpts_def Let_def nth_list_update nth_marked)

theorem checkSetOpts_frame_witness:
  "length (fst (snd (checkSetOpts ostream_ops ostream_init (literal ''a{w5}b'') (Some 0)))) = 7
   \<and> fst (snd (checkSetOpts ostream_ops ostream_init (literal ''a{w5}b'') (Some 0))) ! 1
       = CHR 0x01
   \<and> fst (snd (checkSetOpts ostream_ops ostream_init (literal ''a{w5}b'') (Some 0))) ! 2
       = CHR ''w''"
proof -
  let ?buf = "literal ''a{w5}b''"
  let ?res = "fst (snd (checkSetOpts ostream_ops ostream_init ?buf (Some 0)))"
  have len: "length ?buf = 7" by (simp add: literal_def)
  have b1: "strchr ?buf 0 (CHR ''{'') = Some 1"
    by (simp add: literal_def strchr_def)
  have b2: "strchr ?buf 0 (CHR ''}'') = Some 4"
    by (simp add: literal_def strchr_def)
  have fr: "length ?res = length ?buf
   \<and> (\<forall>i < length ?buf.
        ?res ! i = (if strchr ?buf 0 (CHR ''{'') = Some i \<or> strchr ?buf 0 (CHR ''}'') = Some i
             then CHR 0x01 else ?buf ! i))"
    using checkSetOpts_frame [of ostream_ops ostream_init ?buf 0] by blast
  then have "?res ! 1 = CHR 0x01" using len b1 by simp
  moreover from fr have "?res ! 2 = ?buf ! 2" using len b1 b2 by simp
  moreover have "?buf ! 2 = CHR ''w''" by (simp add: literal_def)
  ultimately show ?thesis using fr len by simp
qed

subsection \<open>Decimal numbers and atoi\<close>

lemma digit_char_in: "d < 10 \<Longrightarrow> digit_char d \<in> set ''0123456789''"
  unfolding digit_char_def by (rule nth_mem) simp

lemma dec_digits: "set (dec n) \<subseteq> set ''0123456789''"
proof (induction n rule: dec.induct)
  case (1 n)
  show ?case
  proof (cases "n < 10")
    case True
    then show ?thesis using digit_char_in [of n] by (subst dec.simps) simp
  next
    case False
    moreover have "n mod 10 < 10" by simp
    ultimately show ?thesis
      using 1 digit_char_in [of "n mod 10"] by (subst dec.simps) simp
  qed
qed

lemma dec_nonempty: "dec n \<noteq> []"
  by (subst dec.simps) simp

lemma digit_val_digit_char: "d < 10 \<Longrightarrow> digit_val (digit_char d) = Some d"
proof -
  assume "d < 10"
  then consider "d = 0" | "d = 1" | "d = 2" | "d = 3" | "d = 4"
    | "d = 5" | "d = 6" | "d = 7" | "d = 8" | "d = 9"
    by atomize_elim presburger
  then show ?thesis
    by cases (simp_all add: digit_char_def digit_val_def)
qed

lemma atoi_digits_dec:
  "atoi_digits acc (dec n @ rest) = atoi_digits (acc * 10 ^ length (dec n) + int n) rest"
proof (induction n arbitrary: acc rest rule: dec.induct)
  case (1 n)
  show ?case
  proof (cases "n < 10")
    case True
    then have "dec n = [digit_char n]" by (subst dec.simps) simp
    with True show ?thesis by (simp add: digit_val_digit_char mult.commute)
  next
    case False
    then have d: "dec n = dec (n div 10) @ [digit_char (n mod 10)]"
      by (subst dec.simps) simp
    have "atoi_digits acc (dec n @ rest)
        = atoi_digits acc (dec (n div 10) @ digit_char (n mod 10) # rest)"
      by (simp add: d)
    also have "\<dots> = atoi_digits (acc * 10 ^ length (dec (n div 10)) + int (n div 10))
        (digit_char (n mod 10) # rest)"
      using False by (intro "1.IH") simp
    also have "\<dots> = atoi_digits
        (10 * (acc * 10 ^ length (dec (n div 10)) + int (n div 10)) + int (n mod 10)) rest"
      by (simp add: digit_val_digit_char)
    also have "10 * (acc * 10 ^ length (dec (n div 10)) + int (n div 10)) + int (n mod 10)
        = acc * 10 ^ length (dec n) + int n"
    proof -
      have "int n = 10 * int (n div 10) + int (n mod 10)"
        by (simp add: zdiv_int zmod_int)
      then show ?thesis by (simp add: d algebra_simps)
    qed
    finally show ?thesis .
  qed
qed

lemma digit_not_sign:
  "c \<in> set ''0123456789'' \<Longrightarrow> \<not> isspace c \<and> c \<noteq> CHR ''-'' \<and> c \<noteq> CHR ''+''"
  by (auto simp: isspace_def)

lemma atoi_dec:
  assumes "rest = [] \<or> digit_val (hd rest) = None"
  shows "atoi (dec n @ rest) = int n"
proof -
  obtain c cs where d: "dec n = c # cs"
    using dec_nonempty [of n] by (cases "dec n") auto
  then have "c \<in> set ''0123456789''"
    using dec_digits [of n] by auto
  then have c: "\<not> isspace c" "c \<noteq> CHR ''-''" "c \<noteq> CHR ''+''"
    using digit_not_sign by blast+
  have "atoi (dec n @ rest) = atoi_digits 0 (dec n @ rest)"
    using c by (simp add: atoi_def d)
  also have "\<dots> = atoi_digits (int n) rest"
    by (simp add: atoi_digits_dec)
  also have "\<dots> = int n"
    using assms by (cases rest) auto
  finally show ?thesis .
qed



subsection \<open>The text of directives\<close>

lemma dec_plain: "c \<in> set (dec n) \<Longrightarrow> c \<notin> set ''wpmfLR'' \<and> c \<noteq> NUL"
  using dec_digits [of n] by auto

lemma notation_char_plain: "notation_char m \<notin> set ''wpmfLR'' \<and> notation_char m \<noteq> NUL"
  by (cases m) simp_all

lemma letter_in: "letter d \<in> set ''wpmfLR''"
  by (cases d) simp_all

lemma render_Cons: "render d = letter d # tl (render d)"
  by (cases d) simp_all

text \<open>The argument of a directive holds a directive letter only as a fill character.\<close>

lemma tl_render_chars:
  assumes "plain_fill d" and "c \<in> set (tl (render d))"
  shows "c \<noteq> NUL" and "c \<noteq> CHR ''f''" and "c \<in> set ''wpmfLR'' \<Longrightarrow> d = Fill c"
proof -
  have "c \<noteq> NUL \<and> c \<noteq> CHR ''f'' \<and> (c \<in> set ''wpmfLR'' \<longrightarrow> d = Fill c)"
  proof (cases d)
    case (Width n)
    with assms(2) show ?thesis using dec_plain [of c n] by simp
  next
    case (Precision n)
    with assms(2) show ?thesis using dec_plain [of c n] by simp
  next
    case (Notation m)
    with assms(2) show ?thesis using notation_char_plain [of m] by simp
  next
    case (Fill x)
    with assms show ?thesis by simp
  qed (use assms(2) in simp_all)
  then show "c \<noteq> NUL" and "c \<noteq> CHR ''f''" and "c \<in> set ''wpmfLR'' \<Longrightarrow> d = Fill c"
    by blast+
qed

lemma render_letters:
  assumes "plain_fill d" and "l \<in> set ''wpmfLR''"
  shows "l \<in> set (render d) \<longleftrightarrow> l = letter d \<or> d = Fill l"
proof
  assume "l \<in> set (render d)"
  then have "l = letter d \<or> l \<in> set (tl (render d))"
    by (subst (asm) render_Cons) auto
  with assms show "l = letter d \<or> d = Fill l"
    using tl_render_chars(3) by blast
next
  assume "l = letter d \<or> d = Fill l"
  then show "l \<in> set (render d)"
  proof
    assume "l = letter d"
    then show ?thesis by (subst render_Cons) simp
  next
    assume "d = Fill l"
    then show ?thesis by simp
  qed
qed

lemma render_no_nul: "plain_fill d \<Longrightarrow> NUL \<notin> set (render d)"
proof
  assume pf: "plain_fill d" and "NUL \<in> set (render d)"
  then have "NUL = letter d \<or> NUL \<in> set (tl (render d))"
    by (subst (asm) render_Cons) auto
  moreover have "letter d \<noteq> NUL" by (cases d) simp_all
  ultimately show False using tl_render_chars(1) [OF pf] by auto
qed

lemma render_last: "plain_fill d \<Longrightarrow> last (render d) \<noteq> CHR ''f''"
proof (cases d)
  case (Width n)
  have "last (dec n) \<in> set (dec n)" using dec_nonempty by simp
  then show ?thesis using Width dec_plain [of "last (dec n)" n] dec_nonempty by auto
next
  case (Precision n)
  have "last (dec n) \<in> set (dec n)" using dec_nonempty by simp
  then show ?thesis using Precision dec_plain [of "last (dec n)" n] dec_nonempty by auto
next
  case (Notation m)
  then show ?thesis by (cases m) simp_all
qed simp_all

lemma body_of_Nil: "body_of [] = []"
  by (simp add: body_of_def)

lemma body_of_Cons: "body_of (d # ds) = render d @ body_of ds"
  by (simp add: body_of_def)

lemma body_of_Cons_letter: "body_of (d # ds) = letter d # (tl (render d) @ body_of ds)"
  by (cases d) (simp_all add: body_of_Cons)

lemma body_of_append: "body_of (xs @ ys) = body_of xs @ body_of ys"
  by (simp add: body_of_def)

lemma body_letters:
  assumes "list_all plain_fill ds" and "l \<in> set ''wpmfLR''"
  shows "l \<in> set (body_of ds) \<longleftrightarrow> l \<in> letter ` set ds \<or> Fill l \<in> set ds"
  using assms(1)
proof (induction ds)
  case Nil
  then show ?case by (simp add: body_of_Nil)
next
  case (Cons d ds)
  then show ?case
    using render_letters [OF _ assms(2), of d] by (auto simp: body_of_Cons)
qed

lemma body_no_nul: "list_all plain_fill ds \<Longrightarrow> NUL \<notin> set (body_of ds)"
  by (induction ds) (auto simp: body_of_Nil body_of_Cons render_no_nul)

lemma body_last:
  "list_all plain_fill ds \<Longrightarrow> ds \<noteq> [] \<Longrightarrow> last (body_of ds) \<noteq> CHR ''f''"
proof (induction ds)
  case Nil
  then show ?case by simp
next
  case (Cons d ds)
  show ?case
  proof (cases "ds = []")
    case True
    with Cons.prems show ?thesis by (simp add: body_of_Cons body_of_Nil render_last)
  next
    case False
    then obtain e es where "ds = e # es" by (cases ds) auto
    then have "body_of ds \<noteq> []"
      by (simp add: body_of_Cons_letter)
    with Cons False show ?thesis by (simp add: body_of_Cons)
  qed
qed

lemma body_hd_no_digit:
  "body_of ds = [] \<or> digit_val (hd (body_of ds)) = None"
proof (cases ds)
  case Nil
  then show ?thesis by (simp add: body_of_Nil)
next
  case (Cons d es)
  have "hd (body_of ds) = letter d"
    by (simp add: Cons body_of_Cons_letter)
  moreover have "digit_val (letter d) = None"
    by (cases d) (simp_all add: digit_val_def)
  ultimately show ?thesis by simp
qed

subsection \<open>The marker on texts with a fill character that is a directive letter\<close>

lemma marker_none: "l \<notin> set s \<Longrightarrow> marker l s = None"
  by (simp add: marker_def first_occ_def)

lemma marker_plain:
  assumes "l \<notin> set a" and "a = [] \<or> last a \<noteq> CHR ''f''"
  shows "marker l (a @ l # b) = Some (length a)"
proof -
  have fo: "first_occ l (a @ l # b) = Some (length a)"
    using assms(1) by (rule first_occ_append)
  have "(a @ l # b) ! (length a - 1) \<noteq> CHR ''f''" if "0 < length a"
  proof -
    from that have "a \<noteq> []" by auto
    with assms(2) have "last a \<noteq> CHR ''f''" by simp
    moreover have "(a @ l # b) ! (length a - 1) = last a"
      using that \<open>a \<noteq> []\<close> by (simp add: nth_append last_conv_nth)
    ultimately show ?thesis by simp
  qed
  then show ?thesis using fo by (auto simp: marker_def)
qed

lemma marker_fill_prefix:
  assumes "l \<notin> set u" and "l \<noteq> CHR ''f''"
  shows "marker l (u @ CHR ''f'' # l # r) = map_option (\<lambda>j. length u + 2 + j) (first_occ l r)"
proof -
  let ?a = "u @ [CHR ''f'']"
  have "l \<notin> set ?a" using assms by simp
  then have "first_occ l (?a @ l # r) = Some (length ?a)"
    by (rule first_occ_append)
  then have fo: "first_occ l (u @ CHR ''f'' # l # r) = Some (length u + 1)"
    by simp
  have prev: "(u @ CHR ''f'' # l # r) ! (length u + 1 - 1) = CHR ''f''"
    by simp
  have rest: "drop (length u + 1 + 1) (u @ CHR ''f'' # l # r) = r"
    by simp
  show ?thesis
    unfolding marker_def fo option.case prev rest
    by (cases "first_occ l r") simp_all
qed

subsection \<open>Simple bodies\<close>

lemma simple_body_split:
  assumes "simple_body (xs @ d # ys)"
  shows "letter d \<notin> letter ` set xs" and "list_all plain_fill xs" and "plain_fill d"
    and "list_all plain_fill ys" and "simple_body xs"
  using assms by (auto simp: simple_body_def)

lemma same_letter_same_directive:
  assumes "simple_body ds" and "d \<in> set ds" and "e \<in> set ds" and "letter d = letter e"
  shows "d = e"
proof -
  from assms(1) have "inj_on letter (set ds)"
    by (simp add: simple_body_def distinct_map)
  with assms(2-4) show ?thesis by (meson inj_onD)
qed

lemma body_shape:
  "body_of (xs @ d # ys) = body_of xs @ letter d # (tl (render d) @ body_of ys)"
  by (simp add: body_of_append body_of_Cons_letter)

lemma body_argument:
  "drop (length (body_of xs) + 1) (body_of (xs @ d # ys)) = tl (render d) @ body_of ys"
  by (simp add: body_shape)

text \<open>
  A letter is absent from the text of a list that holds neither its directive nor a fill
  directive with that letter as the fill character.
\<close>

lemma letter_absent:
  assumes "list_all plain_fill zs" and "l \<in> set ''wpmfLR''"
    and "l \<notin> letter ` set zs" and "Fill l \<notin> set zs"
  shows "l \<notin> set (body_of zs)"
  using assms by (simp add: body_letters)

lemma first_fill:
  assumes "simple_body (xs @ Fill c # ys)"
  shows "first_occ (CHR ''f'') (body_of (xs @ Fill c # ys)) = Some (length (body_of xs))"
proof -
  have nf: "CHR ''f'' \<notin> letter ` set xs"
    using simple_body_split(1) [OF assms] by simp
  then have "Fill (CHR ''f'') \<notin> set xs" by force
  with nf have "CHR ''f'' \<notin> set (body_of xs)"
    using simple_body_split(2) [OF assms] by (intro letter_absent) simp_all
  then show ?thesis
    unfolding body_shape by (simp add: first_occ_append)
qed

lemma marker_directive:
  assumes sb: "simple_body (xs @ d # ys)" and l: "letter d \<in> set ''wpm''"
  shows "marker (letter d) (body_of (xs @ d # ys)) = Some (length (body_of xs))"
proof (cases "Fill (letter d) \<in> set xs")
  case False
  have "letter d \<notin> set (body_of xs)"
    using simple_body_split(1,2) [OF sb] False letter_in [of d] by (intro letter_absent)
  moreover have "body_of xs = [] \<or> last (body_of xs) \<noteq> CHR ''f''"
  proof (cases "xs = []")
    case True
    then show ?thesis by (simp add: body_of_Nil)
  next
    case False
    then show ?thesis using simple_body_split(2) [OF sb] by (simp add: body_last)
  qed
  ultimately show ?thesis
    unfolding body_shape by (rule marker_plain)
next
  case True
  let ?l = "letter d"
  from True obtain us vs where xs: "xs = us @ Fill ?l # vs"
    by (auto dest: split_list)
  have sx: "simple_body (us @ Fill ?l # vs)"
    using simple_body_split(5) [OF sb] by (simp add: xs)
  have nf: "CHR ''f'' \<notin> letter ` set us" "CHR ''f'' \<notin> letter ` set vs"
    using sx by (auto simp: simple_body_def)
  have nl: "?l \<notin> letter ` set us" "?l \<notin> letter ` set vs"
    using simple_body_split(1) [OF sb] by (auto simp: xs)
  have pf: "list_all plain_fill us" "list_all plain_fill vs"
    using sx by (simp_all add: simple_body_def)
  have "Fill ?l \<notin> set us" "Fill ?l \<notin> set vs"
    using nf by force+
  then have au: "?l \<notin> set (body_of us)" and av: "?l \<notin> set (body_of vs)"
    using nl pf letter_in [of d] by (simp_all add: letter_absent)
  have lf: "?l \<noteq> CHR ''f''" using l by auto
  have shape: "body_of (xs @ d # ys)
      = body_of us @ CHR ''f'' # ?l # (body_of vs @ ?l # (tl (render d) @ body_of ys))"
    by (simp add: xs body_of_append body_of_Cons [of "Fill (letter d)"] body_of_Cons_letter [of d])
  have len: "length (body_of xs) = length (body_of us) + 2 + length (body_of vs)"
    by (simp add: xs body_of_append body_of_Cons)
  have "first_occ ?l (body_of vs @ ?l # (tl (render d) @ body_of ys))
      = Some (length (body_of vs))"
    using av by (rule first_occ_append)
  then show ?thesis
    unfolding shape by (simp add: marker_fill_prefix [OF au lf] len)
qed

lemma marker_no_directive:
  assumes sb: "simple_body ds" and l: "l \<in> set ''wpm''" and nl: "l \<notin> letter ` set ds"
  shows "marker l (body_of ds) = None"
proof (cases "Fill l \<in> set ds")
  case False
  have "l \<notin> set (body_of ds)"
    using sb l nl False by (intro letter_absent) (auto simp: simple_body_def)
  then show ?thesis by (rule marker_none)
next
  case True
  then obtain us vs where ds: "ds = us @ Fill l # vs"
    by (auto dest: split_list)
  have sx: "simple_body (us @ Fill l # vs)"
    using sb by (simp add: ds)
  have nf: "CHR ''f'' \<notin> letter ` set us" "CHR ''f'' \<notin> letter ` set vs"
    using sx by (auto simp: simple_body_def)
  have pf: "list_all plain_fill us" "list_all plain_fill vs"
    using sx by (simp_all add: simple_body_def)
  have "Fill l \<notin> set us" "Fill l \<notin> set vs"
    using nf by force+
  moreover have "l \<notin> letter ` set us" "l \<notin> letter ` set vs"
    using nl by (auto simp: ds)
  moreover have "l \<in> set ''wpmfLR''" using l by auto
  ultimately have au: "l \<notin> set (body_of us)" and av: "l \<notin> set (body_of vs)"
    using pf by (simp_all add: letter_absent)
  have lf: "l \<noteq> CHR ''f''" using l by auto
  have shape: "body_of ds = body_of us @ CHR ''f'' # l # body_of vs"
    by (simp add: ds body_of_append body_of_Cons)
  from av have "first_occ l (body_of vs) = None"
    by (simp add: first_occ_def)
  then show ?thesis
    unfolding shape by (simp add: marker_fill_prefix [OF au lf])
qed

lemma peek_drop: "drop j s = c # r \<Longrightarrow> peek s j = c"
proof -
  assume d: "drop j s = c # r"
  then have "j < length s" by (cases "j < length s") auto
  moreover from this have "s ! j = hd (drop j s)" by (simp add: hd_drop_conv_nth)
  ultimately show ?thesis using d by (simp add: peek_def)
qed

lemma width_step:
  assumes "simple_body ds"
  shows "(case marker (CHR ''w'') (body_of ds) of
            Some k \<Rightarrow> shift_setw ops (atoi (drop (k + 1) (body_of ds))) s
          | None \<Rightarrow> s)
         = (if \<exists>n. Width n \<in> set ds
            then shift_setw ops (int (THE n. Width n \<in> set ds)) s else s)"
proof (cases "\<exists>n. Width n \<in> set ds")
  case True
  then obtain n where n: "Width n \<in> set ds" ..
  then obtain xs ys where ds: "ds = xs @ Width n # ys"
    by (auto dest: split_list)
  have "Width n' \<in> set ds \<Longrightarrow> n' = n" for n'
    using same_letter_same_directive [OF assms _ n, of "Width n'"] by simp
  with n have the: "(THE n. Width n \<in> set ds) = n" by blast
  have "marker (CHR ''w'') (body_of ds) = Some (length (body_of xs))"
    using marker_directive [of xs "Width n" ys] assms by (simp add: ds)
  moreover have "drop (length (body_of xs) + 1) (body_of ds) = dec n @ body_of ys"
    using body_argument [of xs "Width n" ys] by (simp add: ds)
  moreover have "atoi (dec n @ body_of ys) = int n"
    using body_hd_no_digit [of ys] by (rule atoi_dec)
  ultimately show ?thesis using True the by simp
next
  case False
  have "CHR ''w'' \<notin> letter ` set ds"
  proof
    assume "CHR ''w'' \<in> letter ` set ds"
    then obtain d where d: "d \<in> set ds" "letter d = CHR ''w''" by auto
    have "\<exists>x. d = Width x" using d(2) by (cases d) simp_all
    with d(1) False show False by auto
  qed
  then have "marker (CHR ''w'') (body_of ds) = None"
    using assms by (intro marker_no_directive) simp_all
  with False show ?thesis by simp
qed

lemma precision_step:
  assumes "simple_body ds"
  shows "(case marker (CHR ''p'') (body_of ds) of
            Some k \<Rightarrow> shift_setprecision ops (atoi (drop (k + 1) (body_of ds))) s
          | None \<Rightarrow> s)
         = (if \<exists>n. Precision n \<in> set ds
            then shift_setprecision ops (int (THE n. Precision n \<in> set ds)) s else s)"
proof (cases "\<exists>n. Precision n \<in> set ds")
  case True
  then obtain n where n: "Precision n \<in> set ds" ..
  then obtain xs ys where ds: "ds = xs @ Precision n # ys"
    by (auto dest: split_list)
  have "Precision n' \<in> set ds \<Longrightarrow> n' = n" for n'
    using same_letter_same_directive [OF assms _ n, of "Precision n'"] by simp
  with n have the: "(THE n. Precision n \<in> set ds) = n" by blast
  have "marker (CHR ''p'') (body_of ds) = Some (length (body_of xs))"
    using marker_directive [of xs "Precision n" ys] assms by (simp add: ds)
  moreover have "drop (length (body_of xs) + 1) (body_of ds) = dec n @ body_of ys"
    using body_argument [of xs "Precision n" ys] by (simp add: ds)
  moreover have "atoi (dec n @ body_of ys) = int n"
    using body_hd_no_digit [of ys] by (rule atoi_dec)
  ultimately show ?thesis using True the by simp
next
  case False
  have "CHR ''p'' \<notin> letter ` set ds"
  proof
    assume "CHR ''p'' \<in> letter ` set ds"
    then obtain d where d: "d \<in> set ds" "letter d = CHR ''p''" by auto
    have "\<exists>x. d = Precision x" using d(2) by (cases d) simp_all
    with d(1) False show False by auto
  qed
  then have "marker (CHR ''p'') (body_of ds) = None"
    using assms by (intro marker_no_directive) simp_all
  with False show ?thesis by simp
qed

lemma notation_step:
  assumes "simple_body ds"
  shows "(case marker (CHR ''m'') (body_of ds) of
            Some k \<Rightarrow> apply_notation ops (peek (body_of ds) (k + 1)) s
          | None \<Rightarrow> s)
         = (if \<exists>m. Notation m \<in> set ds
            then apply_notation ops (notation_char (THE m. Notation m \<in> set ds)) s else s)"
proof (cases "\<exists>m. Notation m \<in> set ds")
  case True
  then obtain m where m: "Notation m \<in> set ds" ..
  then obtain xs ys where ds: "ds = xs @ Notation m # ys"
    by (auto dest: split_list)
  have "Notation m' \<in> set ds \<Longrightarrow> m' = m" for m'
    using same_letter_same_directive [OF assms _ m, of "Notation m'"] by simp
  with m have the: "(THE m. Notation m \<in> set ds) = m" by blast
  have "marker (CHR ''m'') (body_of ds) = Some (length (body_of xs))"
    using marker_directive [of xs "Notation m" ys] assms by (simp add: ds)
  moreover have "drop (length (body_of xs) + 1) (body_of ds) = notation_char m # body_of ys"
    using body_argument [of xs "Notation m" ys] by (simp add: ds)
  then have "peek (body_of ds) (length (body_of xs) + 1) = notation_char m"
    by (rule peek_drop)
  ultimately show ?thesis using True the by simp
next
  case False
  have "CHR ''m'' \<notin> letter ` set ds"
  proof
    assume "CHR ''m'' \<in> letter ` set ds"
    then obtain d where d: "d \<in> set ds" "letter d = CHR ''m''" by auto
    have "\<exists>x. d = Notation x" using d(2) by (cases d) simp_all
    with d(1) False show False by auto
  qed
  then have "marker (CHR ''m'') (body_of ds) = None"
    using assms by (intro marker_no_directive) simp_all
  with False show ?thesis by simp
qed

lemma fill_step:
  assumes "simple_body ds"
  shows "(case first_occ (CHR ''f'') (body_of ds) of
            Some i \<Rightarrow> shift_setfill ops (peek (body_of ds) (i + 1)) s
          | None \<Rightarrow> s)
         = (if \<exists>c. Fill c \<in> set ds
            then shift_setfill ops (THE c. Fill c \<in> set ds) s else s)"
proof (cases "\<exists>c. Fill c \<in> set ds")
  case True
  then obtain c where c: "Fill c \<in> set ds" ..
  then obtain xs ys where ds: "ds = xs @ Fill c # ys"
    by (auto dest: split_list)
  have "Fill c' \<in> set ds \<Longrightarrow> c' = c" for c'
    using same_letter_same_directive [OF assms _ c, of "Fill c'"] by simp
  with c have the: "(THE c. Fill c \<in> set ds) = c" by blast
  have "first_occ (CHR ''f'') (body_of ds) = Some (length (body_of xs))"
    using first_fill [of xs c ys] assms by (simp add: ds)
  moreover have "drop (length (body_of xs) + 1) (body_of ds) = c # body_of ys"
    using body_argument [of xs "Fill c" ys] by (simp add: ds)
  then have "peek (body_of ds) (length (body_of xs) + 1) = c"
    by (rule peek_drop)
  ultimately show ?thesis using True the by simp
next
  case False
  have "CHR ''f'' \<notin> letter ` set ds"
  proof
    assume "CHR ''f'' \<in> letter ` set ds"
    then obtain d where d: "d \<in> set ds" "letter d = CHR ''f''" by auto
    have "\<exists>x. d = Fill x" using d(2) by (cases d) simp_all
    with d(1) False show False by auto
  qed
  moreover from this have "Fill (CHR ''f'') \<notin> set ds" by force
  ultimately have "CHR ''f'' \<notin> set (body_of ds)"
    using assms by (intro letter_absent) (simp_all add: simple_body_def)
  then have "first_occ (CHR ''f'') (body_of ds) = None"
    by (simp add: first_occ_def)
  with False show ?thesis by simp
qed

lemma body_chars: "set (body_of ds) = (\<Union>d \<in> set ds. set (render d))"
  by (simp add: body_of_def)

lemma apply_directives_set:
  assumes "simple_body ds" and "simple_body ds'" and "set ds' = set ds"
  shows "apply_directives ops (body_of ds') out = apply_directives ops (body_of ds) out"
  unfolding apply_directives_def Let_def
    width_step [OF assms(1)] width_step [OF assms(2)]
    precision_step [OF assms(1)] precision_step [OF assms(2)]
    notation_step [OF assms(1)] notation_step [OF assms(2)]
    fill_step [OF assms(1)] fill_step [OF assms(2)]
    body_chars assms(3) ..

lemma simple_body_mset:
  assumes "simple_body ds" and "mset ds' = mset ds"
  shows "simple_body ds'"
proof -
  have "mset (map letter ds') = mset (map letter ds)"
    using assms(2) by simp
  then have "distinct (map letter ds') \<longleftrightarrow> distinct (map letter ds)"
    by (rule mset_eq_imp_distinct_iff)
  moreover have "set ds' = set ds"
    using assms(2) by (rule mset_eq_setD)
  ultimately show ?thesis
    using assms(1) by (simp add: simple_body_def list_all_iff)
qed

text \<open>
  Claim C5, as stated, fails. A body may repeat a letter, and then the first occurrence
  wins: the directives w5 and w7 give width 5 in this order and width 7 in the other. And
  the fill character may be f: after the directive ff the scan for w takes the w that
  follows for a fill character, so ff before w5 sets no width, and w5 before ff sets
  width 5.
\<close>

theorem setOpts_order_dependent:
  "mset [Width 7, Width 5] = mset [Width 5, Width 7]
   \<and> os_width (setOpts ostream_ops ostream_init (literal (body_of [Width 5, Width 7])) 0) = 5
   \<and> os_width (setOpts ostream_ops ostream_init (literal (body_of [Width 7, Width 5])) 0) = 7
   \<and> setOpts ostream_ops ostream_init (literal (body_of [Width 7, Width 5])) 0
       \<noteq> setOpts ostream_ops ostream_init (literal (body_of [Width 5, Width 7])) 0
   \<and> mset [Width 5, Fill (CHR ''f'')] = mset [Fill (CHR ''f''), Width 5]
   \<and> os_width (setOpts ostream_ops ostream_init (literal (body_of [Fill (CHR ''f''), Width 5])) 0) = 0
   \<and> os_width (setOpts ostream_ops ostream_init (literal (body_of [Width 5, Fill (CHR ''f'')])) 0) = 5
   \<and> setOpts ostream_ops ostream_init (literal (body_of [Width 5, Fill (CHR ''f'')])) 0
       \<noteq> setOpts ostream_ops ostream_init (literal (body_of [Fill (CHR ''f''), Width 5])) 0"
proof -
  have "mset [Width 7, Width 5] = mset [Width 5, Width 7]" by simp
  moreover have "mset [Width 5, Fill (CHR ''f'')] = mset [Fill (CHR ''f''), Width 5]" by simp
  moreover have
    "os_width (setOpts ostream_ops ostream_init (literal (body_of [Width 5, Width 7])) 0) = 5"
    by code_simp
  moreover have
    "os_width (setOpts ostream_ops ostream_init (literal (body_of [Width 7, Width 5])) 0) = 7"
    by code_simp
  moreover have
    "setOpts ostream_ops ostream_init (literal (body_of [Width 7, Width 5])) 0
       \<noteq> setOpts ostream_ops ostream_init (literal (body_of [Width 5, Width 7])) 0"
    by code_simp
  moreover have
    "os_width (setOpts ostream_ops ostream_init
       (literal (body_of [Fill (CHR ''f''), Width 5])) 0) = 0"
    by code_simp
  moreover have
    "os_width (setOpts ostream_ops ostream_init
       (literal (body_of [Width 5, Fill (CHR ''f'')])) 0) = 5"
    by code_simp
  moreover have
    "setOpts ostream_ops ostream_init (literal (body_of [Width 5, Fill (CHR ''f'')])) 0
       \<noteq> setOpts ostream_ops ostream_init (literal (body_of [Fill (CHR ''f''), Width 5])) 0"
    by code_simp
  ultimately show ?thesis by blast
qed

text \<open>
  Claim C5, amended. For every body written from directives with pairwise distinct
  letters whose fill character, if there is one, is not f (nor the terminator), every
  permutation of the directives gives the same sink after setOpts. The fill character may
  be any other directive letter: there the second scan of setopt finds the marker.
\<close>

theorem setOpts_permutation:
  assumes "simple_body ds" and "mset ds' = mset ds"
  shows "setOpts ops out (pre @ body_of ds' @ NUL # post) (length pre)
         = setOpts ops out (pre @ body_of ds @ NUL # post) (length pre)"
proof -
  have sb': "simple_body ds'"
    using assms by (rule simple_body_mset)
  have "set ds' = set ds"
    using assms(2) by (rule mset_eq_setD)
  with assms(1) sb'
  have "apply_directives ops (body_of ds') out = apply_directives ops (body_of ds) out"
    by (rule apply_directives_set)
  moreover have "NUL \<notin> set (body_of ds)" "NUL \<notin> set (body_of ds')"
    using assms(1) sb' by (simp_all add: simple_body_def body_no_nul)
  ultimately show ?thesis by (simp add: setOpts_body)
qed

theorem setOpts_permutation_witness:
  "simple_body [Fill (CHR ''w''), Width 5]
   \<and> mset [Width 5, Fill (CHR ''w'')] = mset [Fill (CHR ''w''), Width 5]
   \<and> body_of [Width 5, Fill (CHR ''w'')] = ''w5fw''
   \<and> body_of [Fill (CHR ''w''), Width 5] = ''fww5''
   \<and> setOpts ostream_ops ostream_init
         ([NUL] @ body_of [Width 5, Fill (CHR ''w'')] @ NUL # []) (length [NUL])
       = setOpts ostream_ops ostream_init
         ([NUL] @ body_of [Fill (CHR ''w''), Width 5] @ NUL # []) (length [NUL])"
proof -
  have sb: "simple_body [Fill (CHR ''w''), Width 5]"
    by (simp add: simple_body_def)
  have ms: "mset [Width 5, Fill (CHR ''w'')] = mset [Fill (CHR ''w''), Width 5]"
    by simp
  have b: "body_of [Width 5, Fill (CHR ''w'')] = ''w5fw''"
    "body_of [Fill (CHR ''w''), Width 5] = ''fww5''"
    by code_simp+
  from sb ms b setOpts_permutation [OF sb ms, of ostream_ops ostream_init "[NUL]" "[]"]
  show ?thesis by blast
qed

end
